theory Spec2Isabelle
  imports Complex_Main
begin

section \<open>PageRank: the transition model and the two estimators of pagerank.py\<close>

text \<open>
  The corpus is a Python dict from page names to sets of page names. It is modelled as
  an association list in insertion order (the order \<^verbatim>\<open>for key in corpus\<close> iterates in);
  the outbound links of a page are a set. Floating point numbers are modelled as exact
  reals, the threshold \<^verbatim>\<open>0.001\<close> as \<open>1 / 1000\<close>. Every exception the code can raise,
  also by a lookup or a division, is a value of \<open>error\<close>.
\<close>

datatype error = KeyError | IndexError | ZeroDivisionError | ValueError

type_synonym 'p corpus = "('p \<times> 'p set) list"

definition py_div :: "real \<Rightarrow> real \<Rightarrow> error + real" where
  "py_div a b = (if b = 0 then Inl ZeroDivisionError else Inr (a / b))"

text \<open>The invariants of the graph handed over by \<^verbatim>\<open>crawl\<close>: the keys of a dict are
  distinct, every link leads to a page of the corpus, no page links to itself.\<close>

definition valid_graph :: "'p corpus \<Rightarrow> bool" where
  "valid_graph corpus \<longleftrightarrow>
     distinct (map fst corpus) \<and>
     (\<forall>(page, joins) \<in> set corpus. joins \<subseteq> set (map fst corpus) \<and> page \<notin> joins)"

subsection \<open>transition_model\<close>

text \<open>
  \<^verbatim>\<open>
  n = len(corpus)
  if corpus[page]:
      random_pro = (1-damping_factor)/n
      link_pro = damping_factor/len(corpus[page])
  else:
      random_pro = 1/n
      link_pro = 0
  probability = {}
  for key in corpus:
      if key in corpus[page]:
          probability[key] = link_pro+random_pro
      else:
          probability[key] = random_pro
  return probability
  \<close>
  The returned dict is an association list in the order of the corpus.
\<close>

definition transition_weights :: "nat \<Rightarrow> 'p set \<Rightarrow> real \<Rightarrow> error + (real \<times> real)" where
  "transition_weights n joins damping_factor =
     (if joins \<noteq> {} then
        (case py_div (1 - damping_factor) (real n) of
           Inl e \<Rightarrow> Inl e
         | Inr random_pro \<Rightarrow>
             (case py_div damping_factor (real (card joins)) of
                Inl e \<Rightarrow> Inl e
              | Inr link_pro \<Rightarrow> Inr (random_pro, link_pro)))
      else
        (case py_div 1 (real n) of
           Inl e \<Rightarrow> Inl e
         | Inr random_pro \<Rightarrow> Inr (random_pro, 0)))"

definition transition_model :: "'p corpus \<Rightarrow> 'p \<Rightarrow> real \<Rightarrow> error + ('p \<times> real) list" where
  "transition_model corpus page damping_factor =
     (let n = length corpus in
      case map_of corpus page of
        None \<Rightarrow> Inl KeyError
      | Some joins \<Rightarrow>
          (case transition_weights n joins damping_factor of
             Inl e \<Rightarrow> Inl e
           | Inr (random_pro, link_pro) \<Rightarrow>
               Inr (map (\<lambda>key. (key, if key \<in> joins then link_pro + random_pro else random_pro))
                        (map fst corpus))))"

subsection \<open>The random source\<close>

text \<open>
  The standard library's generator is not part of the repository; its draws are
  parameters of the model. \<^verbatim>\<open>random.choice(seq)\<close> returns \<^verbatim>\<open>seq[i]\<close> for the index
  \<open>i\<close> it draws, and raises IndexError on an empty sequence.
  \<^verbatim>\<open>random.choices(population, weights, k=1)[0]\<close> accumulates the weights, raises
  ValueError when their total is not positive, and returns
  \<^verbatim>\<open>population[bisect(cum_weights, random() * total, 0, n - 1)]\<close>, where \<open>u\<close> stands
  for the value of \<^verbatim>\<open>random()\<close>. \<open>bisect\<close> is the binary search of the library
  (\<^verbatim>\<open>bisect_right\<close>); in this call it reads \<open>cum_weights\<close> below index \<open>n - 1\<close> only.
\<close>

definition random_choice :: "nat \<Rightarrow> 'a list \<Rightarrow> error + 'a" where
  "random_choice i seq = (if i < length seq then Inr (seq ! i) else Inl IndexError)"

fun accumulate :: "real \<Rightarrow> real list \<Rightarrow> real list" where
  "accumulate acc [] = []"
| "accumulate acc (w # ws) = (acc + w) # accumulate (acc + w) ws"

function bisect :: "real list \<Rightarrow> real \<Rightarrow> nat \<Rightarrow> nat \<Rightarrow> nat" where
  "bisect a x lo hi =
     (if lo < hi then
        (let mid = (lo + hi) div 2
         in if x < a ! mid then bisect a x lo mid else bisect a x (mid + 1) hi)
      else lo)"
  by pat_completeness auto
termination
  by (relation "measure (\<lambda>(a, x, lo, hi). hi - lo)") auto

definition random_choices :: "real \<Rightarrow> 'a list \<Rightarrow> real list \<Rightarrow> error + 'a" where
  "random_choices u population weights =
     (let n = length population; cum_weights = accumulate 0 weights
      in if length cum_weights \<noteq> n then Inl ValueError
         else if cum_weights = [] then Inl IndexError
         else (let total = last cum_weights
               in if total \<le> 0 then Inl ValueError
                  else Inr (population ! bisect cum_weights (u * total) 0 (n - 1))))"

subsection \<open>sample_pagerank\<close>

text \<open>
  \<^verbatim>\<open>
  probability = {}
  for i in corpus:
      probability[i] = transition_model(corpus, i, damping_factor)
  state = random.choice(list(corpus))
  ans = {}
  for i in range(n):
      ans[state] = ans.get(state, 0) + 1
      state = random.choices(list(probability[state]),
                             list(probability[state].values()), k=1)[0]
  for key, element in ans.items():
      ans[key] = ans[key]/n
  return ans
  \<close>
  \<open>i0\<close> is the index drawn for the start page and \<open>us i\<close> the value of
  \<^verbatim>\<open>random()\<close> in round \<open>i\<close> of the walk.
\<close>

fun build_probability ::
  "'p corpus \<Rightarrow> real \<Rightarrow> 'p list \<Rightarrow> ('p \<rightharpoonup> ('p \<times> real) list) \<Rightarrow> error + ('p \<rightharpoonup> ('p \<times> real) list)"
where
  "build_probability corpus damping_factor [] probability = Inr probability"
| "build_probability corpus damping_factor (i # rest) probability =
     (case transition_model corpus i damping_factor of
        Inl e \<Rightarrow> Inl e
      | Inr t \<Rightarrow> build_probability corpus damping_factor rest (probability(i \<mapsto> t)))"

fun sample_loop ::
  "('p \<rightharpoonup> ('p \<times> real) list) \<Rightarrow> (nat \<Rightarrow> real) \<Rightarrow> nat list \<Rightarrow> 'p \<Rightarrow> ('p \<rightharpoonup> nat) \<Rightarrow> error + ('p \<rightharpoonup> nat)"
where
  "sample_loop probability us [] state ans = Inr ans"
| "sample_loop probability us (i # rest) state ans =
     (let ans' = ans(state \<mapsto> (case ans state of None \<Rightarrow> 0 | Some c \<Rightarrow> c) + 1)
      in case probability state of
           None \<Rightarrow> Inl KeyError
         | Some t \<Rightarrow>
             (case random_choices (us i) (map fst t) (map snd t) of
                Inl e \<Rightarrow> Inl e
              | Inr state' \<Rightarrow> sample_loop probability us rest state' ans'))"

definition to_probability :: "int \<Rightarrow> ('p \<rightharpoonup> nat) \<Rightarrow> error + ('p \<rightharpoonup> real)" where
  "to_probability n ans =
     (if ans \<noteq> Map.empty \<and> n = 0 then Inl ZeroDivisionError
      else Inr (\<lambda>key. case ans key of None \<Rightarrow> None | Some c \<Rightarrow> Some (real c / real_of_int n)))"

definition sample_pagerank ::
  "'p corpus \<Rightarrow> real \<Rightarrow> int \<Rightarrow> nat \<Rightarrow> (nat \<Rightarrow> real) \<Rightarrow> error + ('p \<rightharpoonup> real)"
where
  "sample_pagerank corpus damping_factor n i0 us =
     (case build_probability corpus damping_factor (map fst corpus) Map.empty of
        Inl e \<Rightarrow> Inl e
      | Inr probability \<Rightarrow>
          (case random_choice i0 (map fst corpus) of
             Inl e \<Rightarrow> Inl e
           | Inr state \<Rightarrow>
               (case sample_loop probability us [0..<nat n] state Map.empty of
                  Inl e \<Rightarrow> Inl e
                | Inr ans \<Rightarrow> to_probability n ans)))"

text \<open>The pages on which the walk stands when a round records its visit, in order
  (a ghost of \<open>sample_loop\<close>: the same recursion, keeping the states instead of counting).\<close>

fun visits :: "('p \<rightharpoonup> ('p \<times> real) list) \<Rightarrow> (nat \<Rightarrow> real) \<Rightarrow> nat list \<Rightarrow> 'p \<Rightarrow> 'p list" where
  "visits probability us [] state = []"
| "visits probability us (i # rest) state =
     state #
     (case probability state of
        None \<Rightarrow> []
      | Some t \<Rightarrow>
          (case random_choices (us i) (map fst t) (map snd t) of
             Inl e \<Rightarrow> []
           | Inr state' \<Rightarrow> visits probability us rest state'))"

definition pages_visited :: "'p corpus \<Rightarrow> real \<Rightarrow> int \<Rightarrow> nat \<Rightarrow> (nat \<Rightarrow> real) \<Rightarrow> 'p list" where
  "pages_visited corpus damping_factor n i0 us =
     (case build_probability corpus damping_factor (map fst corpus) Map.empty of
        Inl e \<Rightarrow> []
      | Inr probability \<Rightarrow>
          (case random_choice i0 (map fst corpus) of
             Inl e \<Rightarrow> []
           | Inr state \<Rightarrow> visits probability us [0..<nat n] state))"

subsection \<open>iterate_pagerank\<close>

text \<open>
  \<^verbatim>\<open>
  for key, joins in corpus.items():
      if not joins:
          corpus[key] = {x for x in corpus}
  \<close>
  The assignment writes into the dict the caller passed; the keys stay as they are.
\<close>

definition fill_dangling :: "'p corpus \<Rightarrow> 'p corpus" where
  "fill_dangling corpus =
     map (\<lambda>(key, joins). (key, if joins = {} then set (map fst corpus) else joins)) corpus"

text \<open>
  \<^verbatim>\<open>
  for key, joins in corpus.items():
      if joins:
          for i in joins:
              val = links.get(i)
              if val:
                  val.add(key)
                  links[i] = val
              else:
                  links[i] = {key}
  \<close>
  The inner loop visits every element of the set \<open>joins\<close> once and touches only
  \<open>links[i]\<close>, so its result does not depend on the order of the visits.
\<close>

definition add_incoming :: "('p \<rightharpoonup> 'p set) \<Rightarrow> 'p \<Rightarrow> 'p set \<Rightarrow> ('p \<rightharpoonup> 'p set)" where
  "add_incoming links key joins =
     (\<lambda>i. if i \<in> joins then
             (case links i of
                Some val \<Rightarrow> if val \<noteq> {} then Some (insert key val) else Some {key}
              | None \<Rightarrow> Some {key})
           else links i)"

fun reverse_links :: "'p corpus \<Rightarrow> ('p \<rightharpoonup> 'p set) \<Rightarrow> ('p \<rightharpoonup> 'p set)" where
  "reverse_links [] links = links"
| "reverse_links ((key, joins) # rest) links =
     reverse_links rest (if joins \<noteq> {} then add_incoming links key joins else links)"

text \<open>
  \<^verbatim>\<open>
  pr = {}
  for i in corpus:
      pr[i] = 1/n
  \<close>
\<close>

fun initial_ranks :: "nat \<Rightarrow> 'p list \<Rightarrow> ('p \<rightharpoonup> real) \<Rightarrow> error + ('p \<rightharpoonup> real)" where
  "initial_ranks n [] pr = Inr pr"
| "initial_ranks n (i # rest) pr =
     (case py_div 1 (real n) of
        Inl e \<Rightarrow> Inl e
      | Inr v \<Rightarrow> initial_ranks n rest (pr(i \<mapsto> v)))"

text \<open>
  \<^verbatim>\<open>
  for j in links[i]:
      sumation += (pr[j]/(len(corpus[j])))
  \<close>
  A missing key raises KeyError and an empty \<open>corpus[j]\<close> ZeroDivisionError; otherwise
  the sum over the set does not depend on the order.
\<close>

definition sumation :: "'p corpus \<Rightarrow> ('p \<rightharpoonup> real) \<Rightarrow> 'p set \<Rightarrow> error + real" where
  "sumation corpus pr incoming =
     (if \<exists>j\<in>incoming. pr j = None \<or> map_of corpus j = None then Inl KeyError
      else if \<exists>j\<in>incoming. card (the (map_of corpus j)) = 0 then Inl ZeroDivisionError
      else Inr (\<Sum>j\<in>incoming. the (pr j) / real (card (the (map_of corpus j)))))"

text \<open>
  \<^verbatim>\<open>
  diff = abs(pr[i] - new_value)
  if diff >= 0.001:
      change = True
  pr[i] = new_value
  \<close>
\<close>

definition store_rank ::
  "('p \<rightharpoonup> real) \<times> bool \<Rightarrow> 'p \<Rightarrow> real \<Rightarrow> error + (('p \<rightharpoonup> real) \<times> bool)"
where
  "store_rank s i new_value =
     (case s of (pr, change) \<Rightarrow>
        (case pr i of
           None \<Rightarrow> Inl KeyError
         | Some old \<Rightarrow>
             (let diff = \<bar>old - new_value\<bar>
              in Inr (pr(i \<mapsto> new_value), (if diff \<ge> 1 / 1000 then True else change)))))"

text \<open>
  The body of \<^verbatim>\<open>for i in corpus\<close>:
  \<^verbatim>\<open>
  sumation = 0
  if i in links:
      for j in links[i]: ...
      new_value = ((1-damping_factor)/n)+(damping_factor*sumation)
      ...
  else:
      new_value = (1-damping_factor)/n
      ...
  \<close>
\<close>

definition update_page ::
  "'p corpus \<Rightarrow> ('p \<rightharpoonup> 'p set) \<Rightarrow> real \<Rightarrow> nat \<Rightarrow> ('p \<rightharpoonup> real) \<times> bool \<Rightarrow> 'p
     \<Rightarrow> error + (('p \<rightharpoonup> real) \<times> bool)"
where
  "update_page corpus links damping_factor n s i =
     (case links i of
        Some incoming \<Rightarrow>
          (case sumation corpus (fst s) incoming of
             Inl e \<Rightarrow> Inl e
           | Inr summed \<Rightarrow>
               (case py_div (1 - damping_factor) (real n) of
                  Inl e \<Rightarrow> Inl e
                | Inr r \<Rightarrow> store_rank s i (r + damping_factor * summed)))
      | None \<Rightarrow>
          (case py_div (1 - damping_factor) (real n) of
             Inl e \<Rightarrow> Inl e
           | Inr r \<Rightarrow> store_rank s i r))"

fun one_pass ::
  "'p corpus \<Rightarrow> ('p \<rightharpoonup> 'p set) \<Rightarrow> real \<Rightarrow> nat \<Rightarrow> 'p list \<Rightarrow> ('p \<rightharpoonup> real) \<times> bool
     \<Rightarrow> error + (('p \<rightharpoonup> real) \<times> bool)"
where
  "one_pass corpus links damping_factor n [] s = Inr s"
| "one_pass corpus links damping_factor n (i # rest) s =
     (case update_page corpus links damping_factor n s i of
        Inl e \<Rightarrow> Inl e
      | Inr s' \<Rightarrow> one_pass corpus links damping_factor n rest s')"

text \<open>
  \<^verbatim>\<open>
  change = True
  while change:
      change = False
      for i in corpus: ...
  return pr
  \<close>
  The loop has no bound on its passes: \<open>None\<close> is the run that never leaves it.
\<close>

partial_function (option) while_change ::
  "'p corpus \<Rightarrow> ('p \<rightharpoonup> 'p set) \<Rightarrow> real \<Rightarrow> nat \<Rightarrow> bool \<Rightarrow> ('p \<rightharpoonup> real) \<Rightarrow> (error + ('p \<rightharpoonup> real)) option"
where
  "while_change corpus links damping_factor n change pr =
     (if change then
        (case one_pass corpus links damping_factor n (map fst corpus) (pr, False) of
           Inl e \<Rightarrow> Some (Inl e)
         | Inr s \<Rightarrow> while_change corpus links damping_factor n (snd s) (fst s))
      else Some (Inr pr))"

declare while_change.simps [code]

text \<open>The result pairs the corpus as the call leaves it (the caller's dict) with the
  returned ranks or the exception raised.\<close>

definition iterate_pagerank ::
  "'p corpus \<Rightarrow> real \<Rightarrow> ('p corpus \<times> (error + ('p \<rightharpoonup> real))) option"
where
  "iterate_pagerank corpus damping_factor =
     (let n = length corpus;
          corpus' = fill_dangling corpus;
          links = reverse_links corpus' Map.empty
      in case initial_ranks n (map fst corpus') Map.empty of
           Inl e \<Rightarrow> Some (corpus', Inl e)
         | Inr pr \<Rightarrow>
             (case while_change corpus' links damping_factor n True pr of
                None \<Rightarrow> None
              | Some r \<Rightarrow> Some (corpus', r)))"

section \<open>Example graphs\<close>

definition corpus_one :: "string corpus" where
  "corpus_one = [(''A'', {})]"

definition corpus_two :: "string corpus" where
  "corpus_two = [(''A'', {''B''}), (''B'', {})]"

text \<open>Draws of \<^verbatim>\<open>random()\<close> for a walk of three rounds.\<close>

definition draws_example :: "nat \<Rightarrow> real" where
  "draws_example i = (if i = 1 then 1 / 4 else 1 / 2)"

definition corpus_three :: "string corpus" where
  "corpus_three = [(''A'', {''B''}), (''B'', {''A''}), (''C'', {''A''})]"

section \<open>The synchronous update of the specification\<close>

text \<open>
  Following the words of the specification (section 4.4), not the code: every page's
  new rank is \<open>(1 - damping)/n + damping * \<Sum> rank(q) / |outbound(q)|\<close> over the pages
  \<open>q\<close> of its reverse set, and all reads use the ranks of the previous pass.
\<close>

definition spec_synchronous_pass ::
  "'p corpus \<Rightarrow> ('p \<rightharpoonup> 'p set) \<Rightarrow> real \<Rightarrow> nat \<Rightarrow> ('p \<rightharpoonup> real) \<Rightarrow> ('p \<rightharpoonup> real)"
where
  "spec_synchronous_pass corpus links d n pr =
     (\<lambda>p. if p \<in> set (map fst corpus)
          then Some ((1 - d) / real n +
                     d * (case links p of
                            None \<Rightarrow> 0
                          | Some incoming \<Rightarrow>
                              (\<Sum>q\<in>incoming. the (pr q) / real (card (the (map_of corpus q))))))
          else None)"

text \<open>The ranks of \<open>corpus_three\<close> before and after the first pass with damping 1/2.\<close>

definition ranks_third :: "string \<rightharpoonup> real" where
  "ranks_third = [''A'' \<mapsto> 1 / 3, ''B'' \<mapsto> 1 / 3, ''C'' \<mapsto> 1 / 3]"

definition ranks_after_pass :: "string \<rightharpoonup> real" where
  "ranks_after_pass = ranks_third(''A'' \<mapsto> 1 / 2, ''B'' \<mapsto> 5 / 12, ''C'' \<mapsto> 1 / 6)"

section \<open>Notions used in the proofs about the passes\<close>

text \<open>The working graph: what \<open>fill_dangling\<close> makes of a valid graph. Every page
  has outbound links, and all of them lead to pages of the graph.\<close>

definition working_graph :: "'p corpus \<Rightarrow> bool" where
  "working_graph corpus \<longleftrightarrow>
     distinct (map fst corpus) \<and>
     (\<forall>(key, joins) \<in> set corpus. joins \<noteq> {} \<and> joins \<subseteq> set (map fst corpus))"

text \<open>The pages that link to \<open>i\<close>, and the value a pass computes for \<open>i\<close> when no
  lookup fails.\<close>

definition incoming :: "'p corpus \<Rightarrow> 'p \<Rightarrow> 'p set" where
  "incoming corpus i = {key. \<exists>joins. (key, joins) \<in> set corpus \<and> i \<in> joins}"

definition new_rank :: "'p corpus \<Rightarrow> real \<Rightarrow> nat \<Rightarrow> ('p \<rightharpoonup> real) \<Rightarrow> 'p \<Rightarrow> real" where
  "new_rank corpus d n pr i =
     (1 - d) / real n +
     d * (\<Sum>j\<in>incoming corpus i. the (pr j) / real (card (the (map_of corpus j))))"

fun in_place_pass ::
  "'p corpus \<Rightarrow> real \<Rightarrow> nat \<Rightarrow> 'p list \<Rightarrow> ('p \<rightharpoonup> real) \<Rightarrow> ('p \<rightharpoonup> real)"
where
  "in_place_pass corpus d n [] pr = pr"
| "in_place_pass corpus d n (i # rest) pr =
     in_place_pass corpus d n rest (pr(i \<mapsto> new_rank corpus d n pr i))"

text \<open>The change of the rank of \<open>j\<close> in pass \<open>k + 1\<close>; the share of the links of \<open>j\<close>
  that lead to pages updated after \<open>j\<close> in a pass; and the weighted sum of the changes
  that decreases geometrically.\<close>

definition step_change ::
  "'p corpus \<Rightarrow> real \<Rightarrow> nat \<Rightarrow> ('p \<rightharpoonup> real) \<Rightarrow> nat \<Rightarrow> 'p \<Rightarrow> real"
where
  "step_change corpus d n x k j =
     \<bar>the ((in_place_pass corpus d n (map fst corpus) ^^ k) x j) -
      the ((in_place_pass corpus d n (map fst corpus) ^^ Suc k) x j)\<bar>"

definition forward_share :: "'p corpus \<Rightarrow> 'p \<Rightarrow> real" where
  "forward_share corpus j =
     real (card {i \<in> the (map_of corpus j).
                 j \<in> set (takeWhile (\<lambda>q. q \<noteq> i) (map fst corpus))}) /
     real (card (the (map_of corpus j)))"

definition pending :: "'p corpus \<Rightarrow> real \<Rightarrow> nat \<Rightarrow> ('p \<rightharpoonup> real) \<Rightarrow> nat \<Rightarrow> real" where
  "pending corpus d n x k =
     (\<Sum>j\<in>set (map fst corpus). (1 - forward_share corpus j) * step_change corpus d n x k j)"

section \<open>Properties of transition_model\<close>

lemma valid_graph_finite:
  assumes "valid_graph corpus" and "map_of corpus page = Some joins"
  shows "finite joins" and "joins \<subseteq> set (map fst corpus)" and "page \<notin> joins"
proof -
  from assms(2) have "(page, joins) \<in> set corpus"
    by (rule map_of_SomeD)
  with assms(1) show "joins \<subseteq> set (map fst corpus)" and "page \<notin> joins"
    by (auto simp: valid_graph_def)
  then show "finite joins"
    by (meson finite_subset List.finite_set)
qed

lemma corpus_nonempty:
  assumes "map_of corpus page = Some joins"
  shows "length corpus \<noteq> 0"
  using assms by (cases corpus) auto

lemma transition_weights_ok:
  assumes "n \<noteq> 0" and "finite joins"
  shows "transition_weights n joins d =
           Inr (if joins \<noteq> {} then ((1 - d) / real n, d / real (card joins)) else (1 / real n, 0))"
  using assms by (simp add: transition_weights_def py_div_def)

lemma transition_model_ok:
  assumes "valid_graph corpus" and "map_of corpus page = Some joins"
  shows "transition_model corpus page d =
           Inr (map (\<lambda>key. (key,
                  if joins \<noteq> {}
                  then (if key \<in> joins then d / real (card joins) + (1 - d) / real (length corpus)
                        else (1 - d) / real (length corpus))
                  else 1 / real (length corpus)))
                (map fst corpus))"
proof -
  have n: "length corpus \<noteq> 0"
    using assms(2) by (rule corpus_nonempty)
  have fin: "finite joins"
    using assms by (rule valid_graph_finite)
  show ?thesis
    by (simp add: transition_model_def assms(2) transition_weights_ok [OF n fin])
qed

lemma sum_weights:
  fixes lp rp :: real
  assumes "distinct keys" and "joins \<subseteq> set keys"
  shows "sum_list (map (\<lambda>key. if key \<in> joins then lp + rp else rp) keys) =
           real (card joins) * lp + real (length keys) * rp"
proof -
  have "sum_list (map (\<lambda>key. if key \<in> joins then lp + rp else rp) keys) =
          (\<Sum>key\<in>set keys. if key \<in> joins then lp + rp else rp)"
    using assms(1) by (simp add: sum_list_distinct_conv_sum_set)
  also have "\<dots> = (\<Sum>key\<in>set keys. (if key \<in> joins then lp else 0) + rp)"
    by (rule sum.cong) auto
  also have "\<dots> = (\<Sum>key\<in>set keys. (if key \<in> joins then lp else 0)) + real (length keys) * rp"
    using assms(1) by (simp add: sum.distrib distinct_card)
  also have "(\<Sum>key\<in>set keys. (if key \<in> joins then lp else 0)) = real (card joins) * lp"
    using assms(2) by (simp add: sum.If_cases Int_absorb1)
  finally show ?thesis .
qed

lemma transition_model_total:
  assumes "valid_graph corpus" and "map_of corpus page = Some joins"
    and "transition_model corpus page d = Inr probability"
  shows "sum_list (map snd probability) = 1"
proof -
  have sub: "joins \<subseteq> set (map fst corpus)" and fin: "finite joins"
    using assms(1,2) by (rule valid_graph_finite)+
  have keys: "distinct (map fst corpus)"
    using assms(1) by (simp add: valid_graph_def)
  have n: "length corpus \<noteq> 0"
    using assms(2) by (rule corpus_nonempty)
  have len: "length (map fst corpus) = length corpus"
    by simp
  show ?thesis
  proof (cases "joins = {}")
    case True
    with assms have "map snd probability = map (\<lambda>key. 1 / real (length corpus)) corpus"
      by (auto simp: transition_model_ok comp_def)
    then show ?thesis
      using n by (simp add: sum_list_triv)
  next
    case False
    then have c: "card joins \<noteq> 0"
      using fin by simp
    from False assms have "map snd probability =
        map (\<lambda>key. if key \<in> joins then d / real (card joins) + (1 - d) / real (length corpus)
                    else (1 - d) / real (length corpus)) (map fst corpus)"
      by (auto simp: transition_model_ok comp_def)
    then show ?thesis
      using n c by (simp only: sum_weights [OF keys sub] len) simp
  qed
qed

lemma keyed_fst: "map fst (map (\<lambda>key. (key, f key)) ks) = ks"
  by (induction ks) auto

lemma keyed_map_of:
  "map_of (map (\<lambda>key. (key, f key)) ks) key = (if key \<in> set ks then Some (f key) else None)"
  by (induction ks) auto

text \<open>
  Claim C4. For a graph that satisfies the input invariants, a page of the graph with
  outbound links \<open>joins\<close> and any damping factor \<open>d\<close> (in particular any in [0,1]),
  \<open>transition_model\<close> returns a distribution over exactly the pages of the graph.
  If the page has \<open>k > 0\<close> outbound links, each linked page gets \<open>d/k + (1-d)/n\<close> and
  every other page \<open>(1-d)/n\<close>; if it has none, every page, the page itself included,
  gets \<open>1/n\<close>, whatever the damping factor.
\<close>

theorem transition_model_probabilities:
  assumes "valid_graph corpus" and "map_of corpus page = Some joins"
  shows "\<exists>probability.
           transition_model corpus page d = Inr probability \<and>
           map fst probability = map fst corpus \<and>
           (\<forall>key \<in> set (map fst corpus).
              map_of probability key =
                Some (if 0 < card joins
                      then (if key \<in> joins
                            then d / real (card joins) + (1 - d) / real (length corpus)
                            else (1 - d) / real (length corpus))
                      else 1 / real (length corpus)))"
proof -
  have fin: "finite joins"
    using assms by (rule valid_graph_finite)
  then have k: "0 < card joins \<longleftrightarrow> joins \<noteq> {}"
    by (simp add: card_gt_0_iff)
  show ?thesis
    unfolding transition_model_ok [OF assms] k
    by (simp only: sum.inject keyed_fst keyed_map_of simp_thms ex_simps) auto
qed

theorem transition_model_probabilities_witness:
  "valid_graph corpus_two \<and> map_of corpus_two ''A'' = Some {''B''} \<and>
   (\<exists>probability.
      transition_model corpus_two ''A'' (17 / 20) = Inr probability \<and>
      map fst probability = [''A'', ''B''] \<and>
      map_of probability ''A'' = Some (3 / 40) \<and>
      map_of probability ''B'' = Some (37 / 40))"
proof -
  have v: "valid_graph corpus_two"
    by (simp add: corpus_two_def valid_graph_def)
  have m: "map_of corpus_two ''A'' = Some {''B''}"
    by (simp add: corpus_two_def)
  show ?thesis
    using v m transition_model_probabilities [OF v m, of "17 / 20"]
    by (simp add: corpus_two_def)
qed

text \<open>
  Claim C5. For a graph that satisfies the input invariants, a page of the graph and any
  damping factor (in particular any in [0,1]), \<open>transition_model\<close> returns a
  distribution whose values sum to exactly 1 in exact arithmetic, whether the page has
  outbound links or is dangling.
\<close>

theorem transition_model_sums_to_one:
  assumes "valid_graph corpus" and "map_of corpus page = Some joins"
  shows "\<exists>probability.
           transition_model corpus page d = Inr probability \<and>
           sum_list (map snd probability) = 1"
proof -
  obtain probability where p: "transition_model corpus page d = Inr probability"
    using transition_model_ok [OF assms] by blast
  with assms have "sum_list (map snd probability) = 1"
    by (rule transition_model_total)
  with p show ?thesis
    by blast
qed

theorem transition_model_sums_to_one_witness:
  "valid_graph corpus_two \<and> map_of corpus_two ''B'' = Some {} \<and>
   (\<exists>probability.
      transition_model corpus_two ''B'' (17 / 20) = Inr probability \<and>
      sum_list (map snd probability) = 1)"
proof -
  have v: "valid_graph corpus_two"
    by (simp add: corpus_two_def valid_graph_def)
  have m: "map_of corpus_two ''B'' = Some {}"
    by (simp add: corpus_two_def)
  show ?thesis
    using v m transition_model_sums_to_one [OF v m, of "17 / 20"]
    by simp
qed

section \<open>The empty corpus\<close>

lemma while_change_False: "while_change corpus links d n False pr = Some (Inr pr)"
  by (subst while_change.simps) simp

lemma while_change_True:
  "while_change corpus links d n True pr =
     (case one_pass corpus links d n (map fst corpus) (pr, False) of
        Inl e \<Rightarrow> Some (Inl e)
      | Inr s \<Rightarrow> while_change corpus links d n (snd s) (fst s))"
  by (subst while_change.simps) simp

text \<open>
  Claim C3, as the specification states it: on an empty graph each of the three
  operations fails with an error. For \<open>iterate_pagerank\<close> this is false: no loop
  body runs, no division is evaluated, and the empty mapping is returned.
\<close>

theorem iterate_pagerank_empty_counterexample:
  "iterate_pagerank ([] :: string corpus) (17 / 20) = Some ([], Inr Map.empty)"
  by (simp add: iterate_pagerank_def fill_dangling_def while_change_True while_change_False)

text \<open>
  Claim C3, amended. The code has no check for an empty corpus. On the empty graph
  \<open>transition_model\<close> fails with the KeyError of the lookup \<^verbatim>\<open>corpus[page]\<close>,
  \<open>sample_pagerank\<close> fails with the IndexError of \<^verbatim>\<open>random.choice\<close> on an empty list,
  and \<open>iterate_pagerank\<close> returns the empty mapping without an error; no operation
  divides by zero or returns a non-finite number.
\<close>

theorem empty_corpus_behaviour:
  "transition_model [] page d = Inl KeyError \<and>
   sample_pagerank [] d n i0 us = Inl IndexError \<and>
   iterate_pagerank [] d = Some ([], Inr Map.empty)"
  by (simp add: transition_model_def sample_pagerank_def random_choice_def
      iterate_pagerank_def fill_dangling_def while_change_True while_change_False)

section \<open>The corpus after iterate_pagerank\<close>

lemmas iterate_eval =
  iterate_pagerank_def fill_dangling_def while_change_True while_change_False
  py_div_def update_page_def add_incoming_def sumation_def store_rank_def

lemma iterate_pagerank_corpus_one:
  "iterate_pagerank corpus_one (17 / 20) = Some ([(''A'', {''A''})], Inr [''A'' \<mapsto> 1])"
  by (simp add: corpus_one_def iterate_eval)

lemma iterate_pagerank_corpus:
  "iterate_pagerank corpus d = Some (corpus', r) \<Longrightarrow> corpus' = fill_dangling corpus"
  by (auto simp: iterate_pagerank_def Let_def split: sum.splits option.splits)

lemma fill_dangling_keys: "map fst (fill_dangling corpus) = map fst corpus"
  by (auto simp: fill_dangling_def)

lemma fill_dangling_nth:
  "k < length corpus \<Longrightarrow>
   snd (fill_dangling corpus ! k) =
     (if snd (corpus ! k) = {} then set (map fst corpus) else snd (corpus ! k))"
  by (auto simp: fill_dangling_def split: prod.splits)

lemma fill_dangling_same:
  "fill_dangling corpus = corpus \<longleftrightarrow> (\<forall>entry \<in> set corpus. snd entry \<noteq> {})"
proof
  assume eq: "fill_dangling corpus = corpus"
  show "\<forall>entry \<in> set corpus. snd entry \<noteq> {}"
  proof
    fix entry
    assume entry: "entry \<in> set corpus"
    then obtain k where k: "k < length corpus" "corpus ! k = entry"
      by (auto simp: in_set_conv_nth)
    have ne: "set (map fst corpus) \<noteq> {}"
      using entry by auto
    show "snd entry \<noteq> {}"
    proof
      assume "snd entry = {}"
      with fill_dangling_nth [OF k(1)] k(2) eq ne show False
        by simp
    qed
  qed
next
  assume "\<forall>entry \<in> set corpus. snd entry \<noteq> {}"
  then show "fill_dangling corpus = corpus"
    unfolding fill_dangling_def by (intro map_idI) (auto split: prod.splits)
qed

text \<open>
  Claim C2, as the specification states it: the graph the caller passed is unchanged
  after the call. The code assigns \<^verbatim>\<open>corpus[key] = {x for x in corpus}\<close> on its
  argument: the one-page graph \<open>{A: {}}\<close> comes back as \<open>{A: {A}}\<close>.
\<close>

theorem iterate_pagerank_mutates_counterexample:
  "corpus_one = [(''A'', {})] \<and>
   map_option fst (iterate_pagerank corpus_one (17 / 20)) = Some [(''A'', {''A''})]"
  by (simp add: iterate_pagerank_corpus_one) (simp add: corpus_one_def)

text \<open>
  Claim C2, amended. \<open>iterate_pagerank\<close> builds no working copy: whenever it returns,
  the caller's mapping has the same keys in the same order, the outbound set of every
  dangling page has been replaced by the set of all pages, and every other entry is as
  it was. The caller's graph is unchanged exactly when it has no dangling page.
\<close>

theorem iterate_pagerank_caller_corpus:
  assumes "iterate_pagerank corpus d = Some (corpus', r)"
  shows "map fst corpus' = map fst corpus \<and>
         (\<forall>k < length corpus.
            snd (corpus' ! k) =
              (if snd (corpus ! k) = {} then set (map fst corpus) else snd (corpus ! k))) \<and>
         (corpus' = corpus \<longleftrightarrow> (\<forall>entry \<in> set corpus. snd entry \<noteq> {}))"
proof -
  have "corpus' = fill_dangling corpus"
    using assms by (rule iterate_pagerank_corpus)
  then show ?thesis
    by (simp add: fill_dangling_keys fill_dangling_nth fill_dangling_same)
qed

theorem iterate_pagerank_caller_corpus_witness:
  "iterate_pagerank corpus_one (17 / 20) = Some ([(''A'', {''A''})], Inr [''A'' \<mapsto> 1]) \<and>
   map fst [(''A'', {''A''})] = map fst corpus_one \<and>
   snd ([(''A'', {''A''})] ! 0) = set (map fst corpus_one) \<and>
   [(''A'', {''A''})] \<noteq> corpus_one"
  using iterate_pagerank_caller_corpus [OF iterate_pagerank_corpus_one] iterate_pagerank_corpus_one
  by (simp add: corpus_one_def)

section \<open>The reverse link index\<close>

lemma reverse_links_char:
  "reverse_links c links i =
     (if \<exists>(key, joins) \<in> set c. i \<in> joins
      then Some ({key. \<exists>joins. (key, joins) \<in> set c \<and> i \<in> joins} \<union>
                 (case links i of None \<Rightarrow> {} | Some v \<Rightarrow> v))
      else links i)"
proof (induction c arbitrary: links)
  case Nil
  then show ?case
    by simp
next
  case (Cons a c)
  obtain key joins where a: "a = (key, joins)"
    by (cases a)
  show ?case
    unfolding a reverse_links.simps Cons.IH
    by (auto simp: add_incoming_def split: option.splits)
qed

text \<open>
  Claim C8, as the specification states it: after the preprocessing every page has an
  incoming link. In a graph without dangling pages the preprocessing changes nothing:
  in \<open>{A: {B}, B: {A}, C: {A}}\<close>, which satisfies the input invariants, no page links
  to \<open>C\<close> and the reverse index has no entry for it.
\<close>

theorem reverse_links_counterexample:
  "valid_graph corpus_three \<and> ''C'' \<in> set (map fst corpus_three) \<and>
   reverse_links (fill_dangling corpus_three) Map.empty ''C'' = None"
  by (simp add: corpus_three_def valid_graph_def fill_dangling_def add_incoming_def)

text \<open>
  Claim C8, amended. After the preprocessing the reverse index has an entry for a page
  exactly when some page of the working graph links to it. If the graph has at least
  one dangling page, every page of the graph has an entry and the entry is a non-empty
  set, so the fallback branch is not taken; without a dangling page a page that nothing
  links to has no entry and the fallback branch is taken for it.
\<close>

theorem reverse_links_entries:
  "(reverse_links (fill_dangling corpus) Map.empty page = None \<longleftrightarrow>
      (\<forall>(key, joins) \<in> set (fill_dangling corpus). page \<notin> joins)) \<and>
   ((\<exists>key. (key, {}) \<in> set corpus) \<and> page \<in> set (map fst corpus) \<longrightarrow>
      (\<exists>incoming. reverse_links (fill_dangling corpus) Map.empty page = Some incoming \<and>
                  incoming \<noteq> {}))"
proof (intro conjI impI)
  show "reverse_links (fill_dangling corpus) Map.empty page = None \<longleftrightarrow>
          (\<forall>(key, joins) \<in> set (fill_dangling corpus). page \<notin> joins)"
    by (auto simp: reverse_links_char)
next
  assume "(\<exists>key. (key, {}) \<in> set corpus) \<and> page \<in> set (map fst corpus)"
  then obtain key where key: "(key, {}) \<in> set corpus" and page: "page \<in> set (map fst corpus)"
    by blast
  from key have "(key, set (map fst corpus)) \<in> set (fill_dangling corpus)"
    by (force simp: fill_dangling_def)
  with page have "\<exists>(key, joins) \<in> set (fill_dangling corpus). page \<in> joins"
    by blast
  then show "\<exists>incoming. reverse_links (fill_dangling corpus) Map.empty page = Some incoming \<and>
                        incoming \<noteq> {}"
    by (subst reverse_links_char) auto
qed

theorem reverse_links_entries_witness:
  "(''B'', {}) \<in> set corpus_two \<and> ''A'' \<in> set (map fst corpus_two) \<and>
   reverse_links (fill_dangling corpus_two) Map.empty ''A'' = Some {''B''}"
  using reverse_links_entries [of corpus_two "''A''"]
  by (simp add: corpus_two_def fill_dangling_def add_incoming_def)

section \<open>The keys of the ranks\<close>

lemma initial_ranks_dom:
  "initial_ranks n keys pr = Inr pr' \<Longrightarrow> dom pr' = dom pr \<union> set keys"
  by (induction keys arbitrary: pr) (auto split: sum.splits)

lemma store_rank_dom:
  assumes "store_rank s i v = Inr s'"
  shows "dom (fst s') = dom (fst s)"
proof -
  obtain pr change where s: "s = (pr, change)"
    by (cases s)
  with assms obtain old where old: "pr i = Some old" and s': "fst s' = pr(i \<mapsto> v)"
    by (auto simp: store_rank_def split: option.splits)
  from old have "i \<in> dom pr"
    by blast
  then show ?thesis
    by (simp add: s s' insert_absorb)
qed

lemma update_page_dom:
  assumes "update_page corpus links d n s i = Inr s'"
  shows "dom (fst s') = dom (fst s)"
proof -
  from assms obtain v where "store_rank s i v = Inr s'"
    by (auto simp: update_page_def split: option.splits sum.splits)
  then show ?thesis
    by (rule store_rank_dom)
qed

lemma one_pass_dom:
  "one_pass corpus links d n keys s = Inr s' \<Longrightarrow> dom (fst s') = dom (fst s)"
proof (induction keys arbitrary: s)
  case Nil
  then show ?case
    by simp
next
  case (Cons i keys)
  from Cons.prems obtain s1 where u: "update_page corpus links d n s i = Inr s1"
    and p: "one_pass corpus links d n keys s1 = Inr s'"
    by (auto split: sum.splits)
  from Cons.IH [OF p] update_page_dom [OF u] show ?case
    by simp
qed

lemmas while_change_induct = while_change.raw_induct [rotated, consumes 1, case_names step]

lemma while_change_dom_aux:
  "while_change corpus links d n change pr = Some r \<Longrightarrow>
   \<forall>pr'. r = Inr pr' \<longrightarrow> dom pr' = dom pr"
proof (induction corpus links d n change pr r rule: while_change_induct)
  case (step while_change corpus links d n change pr r)
  show ?case
  proof (cases change)
    case False
    with step(2) show ?thesis
      by auto
  next
    case True
    show ?thesis
    proof (cases "one_pass corpus links d n (map fst corpus) (pr, False)")
      case (Inl e)
      with True step(2) show ?thesis
        by auto
    next
      case (Inr s)
      with True step(2) have w: "while_change corpus links d n (snd s) (fst s) = Some r"
        by simp
      have "dom (fst s) = dom pr"
        using one_pass_dom [OF Inr] by simp
      with step(1) [OF w] show ?thesis
        by simp
    qed
  qed
qed

lemma while_change_dom:
  "while_change corpus links d n change pr = Some (Inr pr') \<Longrightarrow> dom pr' = dom pr"
  by (drule while_change_dom_aux) simp

lemma iterate_pagerank_corpus_two:
  "\<exists>pr. iterate_pagerank corpus_two (1 / 2) =
          Some ([(''A'', {''B''}), (''B'', {''A'', ''B''})], Inr pr)"
  by (simp add: corpus_two_def iterate_eval)

section \<open>The sampling estimator\<close>

lemma accumulate_length: "length (accumulate acc ws) = length ws"
  by (induction ws arbitrary: acc) auto

lemma accumulate_last: "ws \<noteq> [] \<Longrightarrow> last (accumulate acc ws) = acc + sum_list ws"
proof (induction ws arbitrary: acc)
  case Nil
  then show ?case by simp
next
  case (Cons w ws)
  show ?case
  proof (cases "ws = []")
    case True
    then show ?thesis by simp
  next
    case False
    then have "accumulate (acc + w) ws \<noteq> []"
      by (cases ws) auto
    with Cons.IH[OF False, of "acc + w"] show ?thesis by (simp add: add.assoc)
  qed
qed

lemma bisect_range: "lo \<le> hi \<Longrightarrow> lo \<le> bisect a x lo hi \<and> bisect a x lo hi \<le> hi"
proof (induction a x lo hi rule: bisect.induct)
  case (1 a x lo hi)
  show ?case
  proof (cases "lo < hi")
    case False
    with 1(3) show ?thesis by simp
  next
    case True
    define mid where "mid = (lo + hi) div 2"
    have m: "lo \<le> mid" "mid < hi" using True by (auto simp: mid_def)
    show ?thesis
    proof (cases "x < a ! mid")
      case lt: True
      from 1(1)[OF True mid_def lt] m have "lo \<le> bisect a x lo mid \<and> bisect a x lo mid \<le> mid" by simp
      with True lt m show ?thesis
        by (subst (1 2) bisect.simps) (simp add: mid_def Let_def)
    next
      case ge: False
      from 1(2)[OF True mid_def ge] m have "mid + 1 \<le> bisect a x (mid + 1) hi \<and> bisect a x (mid + 1) hi \<le> hi" by simp
      with True ge m show ?thesis
        by (subst (1 2) bisect.simps) (simp add: mid_def Let_def)
    qed
  qed
qed

lemma random_choices_ok:
  assumes "length population = length weights" and "population \<noteq> []" and "0 < sum_list weights"
  shows "\<exists>x. random_choices u population weights = Inr x \<and> x \<in> set population"
proof -
  have w: "weights \<noteq> []" using assms(1,2) by auto
  then have ne: "accumulate 0 weights \<noteq> []" by (cases weights) auto
  have "bisect (accumulate 0 weights) (u * sum_list weights) 0 (length population - 1) \<le> length population - 1"
    using bisect_range[of 0 "length population - 1"] by simp
  then have "bisect (accumulate 0 weights) (u * sum_list weights) 0 (length population - 1) < length population"
    using assms(2) by (cases population) auto
  then show ?thesis
    using assms ne w by (simp add: random_choices_def Let_def accumulate_length accumulate_last)
qed

lemma page_lookup:
  "page \<in> set (map fst corpus) \<Longrightarrow> \<exists>joins. map_of corpus page = Some joins"
  by (cases "map_of corpus page") (auto simp: map_of_eq_None_iff)

lemma build_probability_ok:
  assumes "valid_graph corpus" and "set ks \<subseteq> set (map fst corpus)"
  shows "\<exists>P. build_probability corpus d ks P0 = Inr P \<and>
           (\<forall>i. P i = (if i \<in> set ks then (case transition_model corpus i d of Inr t \<Rightarrow> Some t | Inl e \<Rightarrow> None)
                        else P0 i))"
  using assms(2)
proof (induction ks arbitrary: P0)
  case Nil
  then show ?case by simp
next
  case (Cons k ks)
  then have "k \<in> set (map fst corpus)" by simp
  then obtain joins where "map_of corpus k = Some joins"
    using page_lookup by fastforce
  then obtain t where t: "transition_model corpus k d = Inr t"
    using transition_model_ok[OF assms(1)] by blast
  from Cons.prems have "set ks \<subseteq> set (map fst corpus)" by simp
  from Cons.IH[OF this, of "P0(k \<mapsto> t)"] obtain P where
    P: "build_probability corpus d ks (P0(k \<mapsto> t)) = Inr P"
      "\<forall>i. P i = (if i \<in> set ks then (case transition_model corpus i d of Inr t \<Rightarrow> Some t | Inl e \<Rightarrow> None)
                        else (P0(k \<mapsto> t)) i)"
    by blast
  show ?case
    using t P by auto
qed

lemma table_entry:
  assumes "valid_graph corpus" and "state \<in> set (map fst corpus)"
  shows "\<exists>t. transition_model corpus state d = Inr t \<and> map fst t = map fst corpus \<and>
             sum_list (map snd t) = 1"
proof -
  obtain joins where j: "map_of corpus state = Some joins"
    using page_lookup[OF assms(2)] by blast
  obtain t where t: "transition_model corpus state d = Inr t"
    using transition_model_ok[OF assms(1) j] by blast
  have "map fst t = map fst corpus"
    using t unfolding transition_model_ok[OF assms(1) j] by (auto simp: keyed_fst)
  with t transition_model_total[OF assms(1) j t] show ?thesis by blast
qed

lemma sample_loop_counts:
  assumes table: "\<forall>state \<in> set keys. \<exists>t. P state = Some t \<and> map fst t = keys \<and> sum_list (map snd t) = 1"
    and "state \<in> set keys"
  shows "\<exists>ans. sample_loop P us rounds state ans0 = Inr ans \<and>
           length (visits P us rounds state) = length rounds \<and>
           (\<forall>p. ans p = (if p \<in> set (visits P us rounds state) \<or> ans0 p \<noteq> None
                         then Some (count_list (visits P us rounds state) p + (case ans0 p of None \<Rightarrow> 0 | Some c \<Rightarrow> c))
                         else None))"
  using assms(2)
proof (induction rounds arbitrary: state ans0)
  case Nil
  then show ?case by auto
next
  case (Cons i rounds)
  from table Cons.prems obtain t where t: "P state = Some t" "map fst t = keys" "sum_list (map snd t) = 1"
    by blast
  have "length (map fst t) = length (map snd t)" "map fst t \<noteq> []" "0 < sum_list (map snd t)"
    using t Cons.prems by auto
  from random_choices_ok[OF this, of "us i"] t(2)
  obtain state' where s': "random_choices (us i) (map fst t) (map snd t) = Inr state'" "state' \<in> set keys"
    by auto
  define ans1 where "ans1 = ans0(state \<mapsto> (case ans0 state of None \<Rightarrow> 0 | Some c \<Rightarrow> c) + 1)"
  from Cons.IH[OF s'(2), of ans1] obtain ans where
    ans: "sample_loop P us rounds state' ans1 = Inr ans"
      "length (visits P us rounds state') = length rounds"
      "\<forall>p. ans p = (if p \<in> set (visits P us rounds state') \<or> ans1 p \<noteq> None
                         then Some (count_list (visits P us rounds state') p + (case ans1 p of None \<Rightarrow> 0 | Some c \<Rightarrow> c))
                         else None)"
    by blast
  have v: "visits P us (i # rounds) state = state # visits P us rounds state'"
    using t s' by simp
  have l: "sample_loop P us (i # rounds) state ans0 = Inr ans"
    using t s' ans(1) by (simp add: ans1_def Let_def)
  show ?case
    unfolding v l using ans(2,3)
    by (auto simp: ans1_def split: option.splits)
qed

lemma count_list_total: "(\<Sum>p\<in>set xs. real (count_list xs p)) = real (length xs)"
proof -
  have "sum (count_list xs) (set xs) = length xs"
    by (rule sum_count_set) auto
  then show ?thesis
    by (metis of_nat_sum)
qed

lemma sample_pagerank_result:
  assumes "valid_graph corpus" and "i0 < length corpus" and "0 < n"
  shows "\<exists>ranks. sample_pagerank corpus d n i0 us = Inr ranks \<and>
           length (pages_visited corpus d n i0 us) = nat n \<and>
           (\<forall>page. ranks page =
              (if page \<in> set (pages_visited corpus d n i0 us)
               then Some (real (count_list (pages_visited corpus d n i0 us) page) / real_of_int n)
               else None))"
proof -
  define keys where "keys = map fst corpus"
  obtain P where P: "build_probability corpus d keys Map.empty = Inr P"
    and Pv: "\<forall>i. P i = (if i \<in> set keys then (case transition_model corpus i d of Inr t \<Rightarrow> Some t | Inl e \<Rightarrow> None)
                        else None)"
    using build_probability_ok[OF assms(1), of keys d Map.empty] by (auto simp: keys_def)
  have table: "\<forall>state \<in> set keys. \<exists>t. P state = Some t \<and> map fst t = keys \<and> sum_list (map snd t) = 1"
  proof
    fix state assume s: "state \<in> set keys"
    then obtain t where "transition_model corpus state d = Inr t" "map fst t = map fst corpus" "sum_list (map snd t) = 1"
      using table_entry[OF assms(1), of state d] by (auto simp: keys_def)
    with s Pv show "\<exists>t. P state = Some t \<and> map fst t = keys \<and> sum_list (map snd t) = 1"
      by (simp add: keys_def)
  qed
  define state where "state = keys ! i0"
  have c: "random_choice i0 keys = Inr state"
    using assms(2) by (simp add: random_choice_def state_def keys_def)
  have st: "state \<in> set keys"
    using assms(2) by (simp add: state_def keys_def)
  define visited where "visited = visits P us [0..<nat n] state"
  from sample_loop_counts[OF table st, of us "[0..<nat n]" Map.empty]
  obtain ans where ans: "sample_loop P us [0..<nat n] state Map.empty = Inr ans"
    and len: "length visited = nat n"
    and cnt: "\<forall>p. ans p = (if p \<in> set visited then Some (count_list visited p) else None)"
    by (auto simp: visited_def)
  have pv: "pages_visited corpus d n i0 us = visited"
    using P c by (simp add: pages_visited_def visited_def keys_def)
  have "sample_pagerank corpus d n i0 us = to_probability n ans"
    using P c ans by (simp add: sample_pagerank_def keys_def)
  also have "\<dots> = Inr (\<lambda>key. case ans key of None \<Rightarrow> None | Some c \<Rightarrow> Some (real c / real_of_int n))"
    using assms(3) by (simp add: to_probability_def)
  finally show ?thesis
    using len cnt by (simp add: pv)
qed

text \<open>
  Claim C6. For a non-empty graph that satisfies the input invariants, any damping
  factor and a positive number of samples, \<open>sample_pagerank\<close> returns a mapping whose
  values sum to exactly 1 in exact arithmetic: every round increments one counter and
  the counters add up to \<open>n\<close>. (\<open>i0 < length corpus\<close> says that the index drawn for
  the start page is an index of the page list, as the generator guarantees.)
\<close>

theorem sample_pagerank_sums_to_one:
  assumes "valid_graph corpus" and "i0 < length corpus" and "0 < n"
  shows "\<exists>ranks. sample_pagerank corpus d n i0 us = Inr ranks \<and>
                 (\<Sum>page\<in>dom ranks. the (ranks page)) = 1"
proof -
  define visited where "visited = pages_visited corpus d n i0 us"
  from sample_pagerank_result [OF assms, of d us] obtain ranks where
    r: "sample_pagerank corpus d n i0 us = Inr ranks"
    and len: "length visited = nat n"
    and v: "\<forall>page. ranks page =
              (if page \<in> set visited
               then Some (real (count_list visited page) / real_of_int n) else None)"
    by (auto simp: visited_def)
  have d: "dom ranks = set visited"
    using v by (auto simp: dom_def)
  have "(\<Sum>page\<in>dom ranks. the (ranks page)) =
          (\<Sum>page\<in>set visited. real (count_list visited page) / real_of_int n)"
    unfolding d by (rule sum.cong) (auto simp: v)
  also have "\<dots> = (\<Sum>page\<in>set visited. real (count_list visited page)) / real_of_int n"
    by (simp add: sum_divide_distrib)
  also have "\<dots> = real (length visited) / real_of_int n"
    by (simp only: count_list_total)
  also have "\<dots> = 1"
    using assms(3) len by simp
  finally show ?thesis
    using r by blast
qed

theorem sample_pagerank_sums_to_one_witness:
  "valid_graph corpus_two \<and> 0 < length corpus_two \<and> (0 :: int) < 3 \<and>
   (\<exists>ranks. sample_pagerank corpus_two (1 / 2) 3 0 draws_example = Inr ranks \<and>
            (\<Sum>page\<in>dom ranks. the (ranks page)) = 1)"
proof -
  have v: "valid_graph corpus_two"
    by (simp add: corpus_two_def valid_graph_def)
  have i: "0 < length corpus_two"
    by (simp add: corpus_two_def)
  have n: "(0 :: int) < 3"
    by simp
  from sample_pagerank_sums_to_one [OF v i n] v i show ?thesis
    by simp
qed

text \<open>
  Claim C7. For a non-empty graph that satisfies the input invariants, any damping
  factor and a positive number of samples \<open>n\<close>, the walk records \<open>n\<close> visits, and the
  mapping \<open>sample_pagerank\<close> returns has a key for a page exactly when the walk visited
  the page at least once; the value of a visited page is its number of visits divided
  by \<open>n\<close>, and a page that was never visited is absent.
\<close>

theorem sample_pagerank_visit_frequencies:
  assumes "valid_graph corpus" and "i0 < length corpus" and "0 < n"
  shows "\<exists>ranks. sample_pagerank corpus d n i0 us = Inr ranks \<and>
           length (pages_visited corpus d n i0 us) = nat n \<and>
           (\<forall>page. ranks page =
              (if page \<in> set (pages_visited corpus d n i0 us)
               then Some (real (count_list (pages_visited corpus d n i0 us) page) / real_of_int n)
               else None))"
  using assms by (rule sample_pagerank_result)

theorem sample_pagerank_visit_frequencies_witness:
  "valid_graph corpus_two \<and> 0 < length corpus_two \<and> (0 :: int) < 3 \<and>
   pages_visited corpus_two (1 / 2) 3 0 draws_example = [''A'', ''B'', ''A''] \<and>
   (\<exists>ranks. sample_pagerank corpus_two (1 / 2) 3 0 draws_example = Inr ranks \<and>
            ranks ''A'' = Some (2 / 3) \<and> ranks ''B'' = Some (1 / 3) \<and> ranks ''C'' = None)"
proof -
  have v: "valid_graph corpus_two"
    by (simp add: corpus_two_def valid_graph_def)
  have i: "0 < length corpus_two"
    by (simp add: corpus_two_def)
  have n: "(0 :: int) < 3"
    by simp
  have w: "pages_visited corpus_two (1 / 2) 3 0 draws_example = [''A'', ''B'', ''A'']"
    by (simp add: pages_visited_def corpus_two_def transition_model_def transition_weights_def
        py_div_def random_choice_def random_choices_def draws_example_def upt_rec Let_def)
  from sample_pagerank_visit_frequencies [OF v i n, of "1 / 2" draws_example] v i w
  show ?thesis
    by auto
qed

section \<open>A pass updates the ranks in place\<close>

lemma store_rank_frame:
  "store_rank s i v = Inr s' \<Longrightarrow> q \<noteq> i \<Longrightarrow> fst s' q = fst s q"
  by (auto simp: store_rank_def split: prod.splits option.splits)

lemma update_page_frame:
  assumes "update_page corpus links d n s i = Inr s'" and "q \<noteq> i"
  shows "fst s' q = fst s q"
proof -
  from assms(1) obtain v where "store_rank s i v = Inr s'"
    by (auto simp: update_page_def split: option.splits sum.splits)
  then show ?thesis
    using assms(2) by (rule store_rank_frame)
qed

lemma one_pass_frame:
  "one_pass corpus links d n ks s = Inr s' \<Longrightarrow> q \<notin> set ks \<Longrightarrow> fst s' q = fst s q"
proof (induction ks arbitrary: s)
  case Nil
  then show ?case by simp
next
  case (Cons i ks)
  from Cons.prems(1) obtain s1 where u: "update_page corpus links d n s i = Inr s1"
    and p: "one_pass corpus links d n ks s1 = Inr s'"
    by (auto split: sum.splits)
  from Cons.prems(2) have "q \<noteq> i" "q \<notin> set ks" by auto
  with Cons.IH[OF p] update_page_frame[OF u] show ?case by simp
qed

lemma one_pass_append:
  "one_pass corpus links d n (xs @ ys) s =
     (case one_pass corpus links d n xs s of
        Inl e \<Rightarrow> Inl e
      | Inr s1 \<Rightarrow> one_pass corpus links d n ys s1)"
  by (induction xs arbitrary: s) (auto split: sum.splits)

text \<open>
  Claim C1, as the specification states it: the ranks produced by a pass are those of
  a synchronous update, in which every new value is computed from the ranks of the
  previous pass. In the first pass over \<open>{A: {B}, B: {A}, C: {A}}\<close> with damping 1/2
  the code stores 1/2 for \<open>A\<close> and then computes the rank of \<open>B\<close> from it: 5/12, where
  the synchronous update gives 1/3.
\<close>

theorem one_pass_not_synchronous_counterexample:
  "initial_ranks 3 (map fst corpus_three) Map.empty = Inr ranks_third \<and>
   (\<exists>s. one_pass corpus_three (reverse_links corpus_three Map.empty) (1 / 2) 3
          (map fst corpus_three) (ranks_third, False) = Inr s \<and>
        fst s ''B'' = Some (5 / 12)) \<and>
   spec_synchronous_pass corpus_three (reverse_links corpus_three Map.empty) (1 / 2) 3
     ranks_third ''B'' = Some (1 / 3)"
  by (simp add: corpus_three_def ranks_third_def spec_synchronous_pass_def py_div_def
      update_page_def add_incoming_def sumation_def store_rank_def)

text \<open>
  Claim C1, amended. A pass of \<open>iterate_pagerank\<close> updates \<open>pr\<close> in place
  (Gauss-Seidel style): the rank stored for the page at position \<open>k\<close> of the iteration
  order is the one the loop body computes from the mapping in which the pages before
  position \<open>k\<close> already hold their new ranks of this pass, and the page itself and the
  pages after it hold the ranks of the previous pass.
\<close>

theorem one_pass_in_place:
  assumes "distinct keys" and "k < length keys"
    and "one_pass corpus links d n keys (pr, change) = Inr (pr', change')"
  shows "\<exists>c s. update_page corpus links d n
                 (\<lambda>q. if q \<in> set (take k keys) then pr' q else pr q, c) (keys ! k) = Inr s \<and>
               fst s (keys ! k) = pr' (keys ! k)"
proof -
  define earlier where "earlier = take k keys"
  define later where "later = drop (Suc k) keys"
  define i where "i = keys ! k"
  have keys: "keys = earlier @ i # later"
    unfolding earlier_def later_def i_def using assms(2) by (rule id_take_nth_drop)
  with assms(1) have dis: "i \<notin> set earlier" "i \<notin> set later" "set earlier \<inter> set later = {}"
    by auto
  from assms(3) obtain s1 s2 where
    f: "one_pass corpus links d n earlier (pr, change) = Inr s1"
    and u: "update_page corpus links d n s1 i = Inr s2"
    and b: "one_pass corpus links d n later s2 = Inr (pr', change')"
    unfolding keys by (auto simp: one_pass_append split: sum.splits)
  have "fst s1 q = (if q \<in> set earlier then pr' q else pr q)" for q
  proof (cases "q \<in> set earlier")
    case True
    with dis have "q \<noteq> i" "q \<notin> set later" by auto
    with one_pass_frame[OF b, of q] update_page_frame[OF u, of q] True show ?thesis
      by simp
  next
    case False
    with one_pass_frame[OF f, of q] show ?thesis by simp
  qed
  then have view: "(\<lambda>q. if q \<in> set earlier then pr' q else pr q) = fst s1"
    by auto
  have "fst s2 i = pr' i"
    using one_pass_frame[OF b dis(2)] by simp
  moreover have "update_page corpus links d n (\<lambda>q. if q \<in> set earlier then pr' q else pr q, snd s1) i = Inr s2"
    using u by (simp add: view)
  ultimately show ?thesis
    unfolding earlier_def i_def by blast
qed

theorem one_pass_in_place_witness:
  "distinct (map fst corpus_three) \<and> 1 < length (map fst corpus_three) \<and>
   one_pass corpus_three (reverse_links corpus_three Map.empty) (1 / 2) 3
     (map fst corpus_three) (ranks_third, False) = Inr (ranks_after_pass, True) \<and>
   (\<exists>c s. update_page corpus_three (reverse_links corpus_three Map.empty) (1 / 2) 3
            (\<lambda>q. if q \<in> set (take 1 (map fst corpus_three)) then ranks_after_pass q
                  else ranks_third q, c)
            (map fst corpus_three ! 1) = Inr s \<and>
          fst s (map fst corpus_three ! 1) = ranks_after_pass (map fst corpus_three ! 1))"
proof -
  have d: "distinct (map fst corpus_three)"
    by (simp add: corpus_three_def)
  have k: "1 < length (map fst corpus_three)"
    by (simp add: corpus_three_def)
  have p: "one_pass corpus_three (reverse_links corpus_three Map.empty) (1 / 2) 3
             (map fst corpus_three) (ranks_third, False) = Inr (ranks_after_pass, True)"
    by (simp add: corpus_three_def ranks_third_def ranks_after_pass_def py_div_def
        update_page_def add_incoming_def sumation_def store_rank_def)
  from one_pass_in_place [OF d k p] d k p show ?thesis
    by blast
qed

section \<open>The passes without exceptions\<close>

lemma fill_dangling_working:
  assumes "valid_graph corpus"
  shows "working_graph (fill_dangling corpus)"
proof -
  have d: "distinct (map fst (fill_dangling corpus))"
    using assms by (simp add: fill_dangling_keys valid_graph_def)
  have "joins \<noteq> {} \<and> joins \<subseteq> set (map fst corpus)" if "(key, joins) \<in> set (fill_dangling corpus)" for key joins
  proof -
    from that obtain joins0 where j0: "(key, joins0) \<in> set corpus" and j: "joins = (if joins0 = {} then set (map fst corpus) else joins0)"
      by (auto simp: fill_dangling_def)
    from j0 have "key \<in> set (map fst corpus)" by force
    moreover from j0 assms have "joins0 \<subseteq> set (map fst corpus)" by (auto simp: valid_graph_def)
    ultimately show ?thesis using j by auto
  qed
  with d show ?thesis
    unfolding working_graph_def fill_dangling_keys by blast
qed

lemma links_incoming:
  "reverse_links corpus Map.empty i = (if incoming corpus i = {} then None else Some (incoming corpus i))"
  by (auto simp: reverse_links_char incoming_def)

lemma incoming_entry:
  assumes "working_graph corpus" and "j \<in> incoming corpus i"
  shows "j \<in> set (map fst corpus)" and "i \<in> the (map_of corpus j)" and "finite (the (map_of corpus j))"
    and "the (map_of corpus j) \<subseteq> set (map fst corpus)" and "map_of corpus j \<noteq> None"
proof -
  from assms(2) obtain joins where j: "(j, joins) \<in> set corpus" and i: "i \<in> joins"
    by (auto simp: incoming_def)
  from j show "j \<in> set (map fst corpus)" by force
  from assms(1) j have m: "map_of corpus j = Some joins"
    by (simp add: working_graph_def)
  then show "map_of corpus j \<noteq> None" by simp
  from m i show "i \<in> the (map_of corpus j)" by simp
  from assms(1) j m show "the (map_of corpus j) \<subseteq> set (map fst corpus)"
    by (auto simp: working_graph_def)
  then show "finite (the (map_of corpus j))"
    by (meson finite_subset List.finite_set)
qed

lemma incoming_finite:
  assumes "working_graph corpus"
  shows "finite (incoming corpus i)"
proof -
  have "incoming corpus i \<subseteq> set (map fst corpus)"
    using incoming_entry(1)[OF assms] by blast
  then show ?thesis by (meson finite_subset List.finite_set)
qed

lemma sumation_pure:
  assumes "working_graph corpus" and "dom pr = set (map fst corpus)"
  shows "sumation corpus pr (incoming corpus i) =
           Inr (\<Sum>j\<in>incoming corpus i. the (pr j) / real (card (the (map_of corpus j))))"
proof -
  have a: "pr j \<noteq> None \<and> map_of corpus j \<noteq> None \<and> card (the (map_of corpus j)) \<noteq> 0" if "j \<in> incoming corpus i" for j
  proof -
    from incoming_entry[OF assms(1) that] assms(2) have "pr j \<noteq> None" "map_of corpus j \<noteq> None"
      by auto
    moreover from incoming_entry(2,3)[OF assms(1) that] have "card (the (map_of corpus j)) \<noteq> 0"
      by auto
    ultimately show ?thesis by simp
  qed
  then show ?thesis
    unfolding sumation_def by auto
qed

lemma update_page_pure:
  assumes "working_graph corpus" and "dom pr = set (map fst corpus)" and "i \<in> set (map fst corpus)" and "n \<noteq> 0"
  shows "update_page corpus (reverse_links corpus Map.empty) d n (pr, change) i =
           Inr (pr(i \<mapsto> new_rank corpus d n pr i),
                (if \<bar>the (pr i) - new_rank corpus d n pr i\<bar> \<ge> 1 / 1000 then True else change))"
proof -
  from assms(2,3) obtain old where old: "pr i = Some old"
    by auto
  show ?thesis
  proof (cases "incoming corpus i = {}")
    case True
    then show ?thesis
      using assms(4) old
      by (simp add: update_page_def links_incoming py_div_def store_rank_def new_rank_def)
  next
    case False
    then show ?thesis
      using assms(4) old
      by (simp add: update_page_def links_incoming py_div_def store_rank_def new_rank_def
          sumation_pure[OF assms(1,2)])
  qed
qed

lemma in_place_pass_frame:
  "i \<notin> set ks \<Longrightarrow> in_place_pass corpus d n ks pr i = pr i"
  by (induction ks arbitrary: pr) auto

lemma in_place_pass_dom:
  "dom (in_place_pass corpus d n ks pr) = dom pr \<union> set ks"
  by (induction ks arbitrary: pr) auto

lemma one_pass_pure:
  assumes "working_graph corpus" and "n \<noteq> 0"
  shows "dom pr = set (map fst corpus) \<Longrightarrow> set ks \<subseteq> set (map fst corpus) \<Longrightarrow> distinct ks \<Longrightarrow>
         one_pass corpus (reverse_links corpus Map.empty) d n ks (pr, change) =
           Inr (in_place_pass corpus d n ks pr,
                change \<or> (\<exists>i\<in>set ks. \<bar>the (pr i) - the (in_place_pass corpus d n ks pr i)\<bar> \<ge> 1 / 1000))"
proof (induction ks arbitrary: pr change)
  case Nil
  then show ?case by simp
next
  case (Cons i ks)
  define v where "v = new_rank corpus d n pr i"
  define pr1 where "pr1 = pr(i \<mapsto> v)"
  define c1 where "c1 = (if \<bar>the (pr i) - v\<bar> \<ge> 1 / 1000 then True else change)"
  have i: "i \<in> set (map fst corpus)" "i \<notin> set ks" using Cons.prems by auto
  have u: "update_page corpus (reverse_links corpus Map.empty) d n (pr, change) i = Inr (pr1, c1)"
    using update_page_pure[OF assms(1) Cons.prems(1) i(1) assms(2)] by (simp add: pr1_def c1_def v_def)
  have d1: "dom pr1 = set (map fst corpus)"
    using Cons.prems(1) i(1) by (auto simp: pr1_def)
  have IH: "one_pass corpus (reverse_links corpus Map.empty) d n ks (pr1, c1) =
           Inr (in_place_pass corpus d n ks pr1,
                c1 \<or> (\<exists>i\<in>set ks. \<bar>the (pr1 i) - the (in_place_pass corpus d n ks pr1 i)\<bar> \<ge> 1 / 1000))"
    using Cons.prems by (intro Cons.IH d1) auto
  have same: "pr1 k = pr k" if "k \<in> set ks" for k
    using that i(2) by (auto simp: pr1_def)
  have vi: "the (in_place_pass corpus d n ks pr1 i) = v"
    using in_place_pass_frame[OF i(2), of corpus d n pr1] by (simp add: pr1_def)
  have p: "in_place_pass corpus d n (i # ks) pr = in_place_pass corpus d n ks pr1"
    by (simp add: pr1_def v_def)
  show ?case
    unfolding one_pass.simps u sum.case IH p
    using vi same by (auto simp: c1_def)
qed

lemma in_place_pass_view:
  "distinct ks \<Longrightarrow> i \<in> set ks \<Longrightarrow>
   in_place_pass corpus d n ks pr i =
     Some (new_rank corpus d n
            (\<lambda>q. if q \<in> set (takeWhile (\<lambda>q. q \<noteq> i) ks) then in_place_pass corpus d n ks pr q else pr q) i)"
proof (induction ks arbitrary: pr)
  case Nil
  then show ?case by simp
next
  case (Cons k ks)
  define pr1 where "pr1 = pr(k \<mapsto> new_rank corpus d n pr k)"
  have p: "in_place_pass corpus d n (k # ks) pr = in_place_pass corpus d n ks pr1"
    by (simp add: pr1_def)
  have k: "k \<notin> set ks" "distinct ks" using Cons.prems by auto
  show ?case
  proof (cases "i = k")
    case True
    then show ?thesis
      using in_place_pass_frame[OF k(1), of corpus d n pr1] by (simp add: p del: in_place_pass.simps) (simp add: pr1_def)
  next
    case False
    with Cons.prems have i: "i \<in> set ks" by simp
    have "(\<lambda>q. if q \<in> set (takeWhile (\<lambda>q. q \<noteq> i) (k # ks)) then in_place_pass corpus d n (k # ks) pr q else pr q)
        = (\<lambda>q. if q \<in> set (takeWhile (\<lambda>q. q \<noteq> i) ks) then in_place_pass corpus d n ks pr1 q else pr1 q)"
    proof
      fix q
      show "(if q \<in> set (takeWhile (\<lambda>q. q \<noteq> i) (k # ks)) then in_place_pass corpus d n (k # ks) pr q else pr q)
        = (if q \<in> set (takeWhile (\<lambda>q. q \<noteq> i) ks) then in_place_pass corpus d n ks pr1 q else pr1 q)"
      proof (cases "q = k")
        case True
        have "k \<notin> set (takeWhile (\<lambda>q. q \<noteq> i) ks)"
          using k(1) by (meson set_takeWhileD)
        then show ?thesis
          using True False in_place_pass_frame[OF k(1), of corpus d n pr1] by (simp add: p del: in_place_pass.simps)
      next
        case qk: False
        then show ?thesis
          using False by (simp add: p del: in_place_pass.simps) (simp add: pr1_def)
      qed
    qed
    then show ?thesis
      using Cons.IH[OF k(2) i, of pr1] by (simp only: p)
  qed
qed

lemma new_rank_diff:
  assumes "finite (incoming corpus i)"
  shows "new_rank corpus d n pr' i - new_rank corpus d n pr i =
         d * (\<Sum>j\<in>incoming corpus i. (the (pr' j) - the (pr j)) / real (card (the (map_of corpus j))))"
  by (simp add: new_rank_def sum_subtractf diff_divide_distrib right_diff_distrib)

lemma out_sum:
  fixes D1 D2 :: real
  assumes "finite S" and "S \<noteq> {}"
  shows "(\<Sum>i\<in>S. (if P i then D2 else D1) / real (card S)) =
           (real (card {i \<in> S. P i}) / real (card S)) * D2 +
           (1 - real (card {i \<in> S. P i}) / real (card S)) * D1"
proof -
  have c: "real (card S) \<noteq> 0" using assms by auto
  have split: "card {i \<in> S. P i} + card {i \<in> S. \<not> P i} = card S"
  proof -
    have "card ({i \<in> S. P i} \<union> {i \<in> S. \<not> P i}) = card {i \<in> S. P i} + card {i \<in> S. \<not> P i}"
      using assms(1) by (intro card_Un_disjoint) auto
    moreover have "{i \<in> S. P i} \<union> {i \<in> S. \<not> P i} = S" by auto
    ultimately show ?thesis by simp
  qed
  have "(\<Sum>i\<in>S. (if P i then D2 else D1) / real (card S)) = (\<Sum>i\<in>S. (if P i then D2 else D1)) / real (card S)"
    by (simp add: sum_divide_distrib)
  also have "(\<Sum>i\<in>S. (if P i then D2 else D1)) = real (card {i \<in> S. P i}) * D2 + real (card {i \<in> S. \<not> P i}) * D1"
    using assms(1) by (simp add: sum.If_cases Int_def Collect_conj_eq[symmetric] set_diff_eq)
  also have "real (card {i \<in> S. \<not> P i}) = real (card S) - real (card {i \<in> S. P i})"
    using split by linarith
  finally show ?thesis
    using c by (simp add: field_simps)
qed

section \<open>The changes of consecutive passes decrease geometrically\<close>

lemma weighted_step:
  fixes D1 D2 :: "'p \<Rightarrow> real" and out :: "'p \<Rightarrow> 'p set" and E :: "'p \<Rightarrow> 'p set"
  assumes fin: "finite K"
    and out: "\<forall>j\<in>K. out j \<subseteq> K \<and> out j \<noteq> {}"
    and step: "\<forall>i\<in>K. D2 i \<le> a * (\<Sum>j\<in>{j\<in>K. i \<in> out j}. (if j \<in> E i then D2 j else D1 j) / real (card (out j)))"
  shows "(\<Sum>j\<in>K. D2 j) \<le>
         a * (\<Sum>j\<in>K. (real (card {i\<in>out j. j \<in> E i}) / real (card (out j))) * D2 j +
                       (1 - real (card {i\<in>out j. j \<in> E i}) / real (card (out j))) * D1 j)"
proof -
  define h where "h i j = (if j \<in> E i then D2 j else D1 j) / real (card (out j))" for i j
  have "(\<Sum>i\<in>K. D2 i) \<le> (\<Sum>i\<in>K. a * (\<Sum>j\<in>{j\<in>K. i \<in> out j}. h i j))"
    using step by (intro sum_mono) (simp add: h_def)
  also have "\<dots> = a * (\<Sum>i\<in>K. \<Sum>j\<in>{j\<in>K. i \<in> out j}. h i j)"
    by (simp add: sum_distrib_left)
  also have "(\<Sum>i\<in>K. \<Sum>j\<in>{j\<in>K. i \<in> out j}. h i j) = (\<Sum>j\<in>K. \<Sum>i\<in>{i\<in>K. i \<in> out j}. h i j)"
    using fin by (rule sum.swap_restrict) (rule fin)
  also have "\<dots> = (\<Sum>j\<in>K. (real (card {i\<in>out j. j \<in> E i}) / real (card (out j))) * D2 j +
                       (1 - real (card {i\<in>out j. j \<in> E i}) / real (card (out j))) * D1 j)"
  proof (rule sum.cong)
    fix j assume j: "j \<in> K"
    with out have o: "out j \<subseteq> K" "out j \<noteq> {}" by auto
    then have f: "finite (out j)" using fin by (meson finite_subset)
    have "{i\<in>K. i \<in> out j} = out j" using o by auto
    then have "(\<Sum>i\<in>{i\<in>K. i \<in> out j}. h i j) = (\<Sum>i\<in>out j. (if j \<in> E i then D2 j else D1 j) / real (card (out j)))"
      by (simp add: h_def)
    also have "\<dots> = (real (card {i\<in>out j. j \<in> E i}) / real (card (out j))) * D2 j +
                       (1 - real (card {i\<in>out j. j \<in> E i}) / real (card (out j))) * D1 j"
      using f o(2) by (rule out_sum)
    finally show "(\<Sum>i\<in>{i\<in>K. i \<in> out j}. h i j) = (real (card {i\<in>out j. j \<in> E i}) / real (card (out j))) * D2 j +
                       (1 - real (card {i\<in>out j. j \<in> E i}) / real (card (out j))) * D1 j" .
  qed simp
  finally show ?thesis .
qed

lemma weighted_contraction:
  fixes D1 D2 l :: "'p \<Rightarrow> real"
  assumes "finite K" and a: "0 \<le> a" "a < 1"
    and l: "\<forall>j\<in>K. 0 \<le> l j \<and> l j \<le> 1"
    and D: "\<forall>j\<in>K. 0 \<le> D1 j \<and> 0 \<le> D2 j"
    and step: "(\<Sum>j\<in>K. D2 j) \<le> a * (\<Sum>j\<in>K. l j * D2 j + (1 - l j) * D1 j)"
  shows "(\<Sum>j\<in>K. (1 - l j) * D2 j) \<le> a * (\<Sum>j\<in>K. (1 - l j) * D1 j)"
    and "(1 - a) * (\<Sum>j\<in>K. D2 j) \<le> a * (\<Sum>j\<in>K. (1 - l j) * D1 j)"
proof -
  define A2 where "A2 = (\<Sum>j\<in>K. l j * D2 j)"
  define B2 where "B2 = (\<Sum>j\<in>K. (1 - l j) * D2 j)"
  define B1 where "B1 = (\<Sum>j\<in>K. (1 - l j) * D1 j)"
  have A2: "0 \<le> A2" unfolding A2_def using l D by (intro sum_nonneg) auto
  have B2: "0 \<le> B2" unfolding B2_def using l D by (intro sum_nonneg) auto
  have S: "(\<Sum>j\<in>K. D2 j) = A2 + B2"
    unfolding A2_def B2_def by (simp add: sum.distrib[symmetric] algebra_simps)
  have R: "(\<Sum>j\<in>K. l j * D2 j + (1 - l j) * D1 j) = A2 + B1"
    unfolding A2_def B1_def by (simp add: sum.distrib)
  from step have ineq: "A2 + B2 \<le> a * A2 + a * B1"
    unfolding S R by (simp add: algebra_simps)
  have p1: "a * A2 \<le> A2" using a A2 by (simp add: mult_left_le_one_le)
  have p2: "0 \<le> a * B2" using a B2 by simp
  from ineq p1 show "B2 \<le> a * B1" by linarith
  from ineq p2 have "(1 - a) * (A2 + B2) \<le> a * B1" by (simp add: algebra_simps)
  then show "(1 - a) * (\<Sum>j\<in>K. D2 j) \<le> a * B1" unfolding S .
qed

lemma working_entry:
  assumes "working_graph corpus" and "j \<in> set (map fst corpus)"
  shows "the (map_of corpus j) \<subseteq> set (map fst corpus)" and "the (map_of corpus j) \<noteq> {}"
    and "finite (the (map_of corpus j))"
proof -
  from assms(2) obtain joins where j: "(j, joins) \<in> set corpus"
    by auto
  with assms(1) have m: "map_of corpus j = Some joins"
    by (simp add: working_graph_def)
  from assms(1) j m show "the (map_of corpus j) \<subseteq> set (map fst corpus)" and "the (map_of corpus j) \<noteq> {}"
    by (auto simp: working_graph_def)
  then show "finite (the (map_of corpus j))"
    by (meson finite_subset List.finite_set)
qed

lemma incoming_alt:
  assumes "working_graph corpus"
  shows "incoming corpus i = {j \<in> set (map fst corpus). i \<in> the (map_of corpus j)}"
proof (intro set_eqI iffI)
  fix j assume "j \<in> incoming corpus i"
  from incoming_entry(1,2)[OF assms this]
  show "j \<in> {j \<in> set (map fst corpus). i \<in> the (map_of corpus j)}" by simp
next
  fix j assume "j \<in> {j \<in> set (map fst corpus). i \<in> the (map_of corpus j)}"
  then have j: "j \<in> set (map fst corpus)" and i: "i \<in> the (map_of corpus j)" by auto
  from j obtain joins where m: "map_of corpus j = Some joins"
    using page_lookup by fastforce
  then have "(j, joins) \<in> set corpus" by (rule map_of_SomeD)
  with m i show "j \<in> incoming corpus i" by (auto simp: incoming_def)
qed

lemma pass_step_bound:
  assumes w: "working_graph corpus"
    and y: "y = in_place_pass corpus d n (map fst corpus) x"
    and z: "z = in_place_pass corpus d n (map fst corpus) y"
    and i: "i \<in> set (map fst corpus)"
  shows "\<bar>the (y i) - the (z i)\<bar> \<le>
         \<bar>d\<bar> * (\<Sum>j\<in>{j \<in> set (map fst corpus). i \<in> the (map_of corpus j)}.
                  (if j \<in> set (takeWhile (\<lambda>q. q \<noteq> i) (map fst corpus))
                   then \<bar>the (y j) - the (z j)\<bar> else \<bar>the (x j) - the (y j)\<bar>) /
                  real (card (the (map_of corpus j))))"
proof -
  define keys where "keys = map fst corpus"
  define E where "E = set (takeWhile (\<lambda>q. q \<noteq> i) keys)"
  define vxy where "vxy = (\<lambda>q. if q \<in> E then y q else x q)"
  define vyz where "vyz = (\<lambda>q. if q \<in> E then z q else y q)"
  have dk: "distinct keys" using w by (simp add: working_graph_def keys_def)
  have yi: "y i = Some (new_rank corpus d n vxy i)"
    unfolding y vxy_def E_def keys_def using dk i by (intro in_place_pass_view) (auto simp: keys_def)
  have zi: "z i = Some (new_rank corpus d n vyz i)"
    unfolding z vyz_def E_def keys_def using dk i by (intro in_place_pass_view) (auto simp: keys_def)
  have fin: "finite (incoming corpus i)" using w by (rule incoming_finite)
  have "the (y i) - the (z i) = d * (\<Sum>j\<in>incoming corpus i. (the (vxy j) - the (vyz j)) / real (card (the (map_of corpus j))))"
    unfolding yi zi option.sel using fin by (rule new_rank_diff)
  then have "\<bar>the (y i) - the (z i)\<bar> = \<bar>d\<bar> * \<bar>\<Sum>j\<in>incoming corpus i. (the (vxy j) - the (vyz j)) / real (card (the (map_of corpus j)))\<bar>"
    by (simp add: abs_mult)
  also have "\<dots> \<le> \<bar>d\<bar> * (\<Sum>j\<in>incoming corpus i. \<bar>(the (vxy j) - the (vyz j)) / real (card (the (map_of corpus j)))\<bar>)"
    by (intro mult_left_mono sum_abs) simp
  also have "(\<Sum>j\<in>incoming corpus i. \<bar>(the (vxy j) - the (vyz j)) / real (card (the (map_of corpus j)))\<bar>) =
      (\<Sum>j\<in>incoming corpus i. (if j \<in> E then \<bar>the (y j) - the (z j)\<bar> else \<bar>the (x j) - the (y j)\<bar>) / real (card (the (map_of corpus j))))"
    by (rule sum.cong) (auto simp: vxy_def vyz_def)
  finally show ?thesis
    unfolding incoming_alt[OF w] E_def keys_def .
qed

lemma forward_share_range:
  assumes "working_graph corpus" and "j \<in> set (map fst corpus)"
  shows "0 \<le> forward_share corpus j \<and> forward_share corpus j \<le> 1"
proof -
  have f: "finite (the (map_of corpus j))" and ne: "the (map_of corpus j) \<noteq> {}"
    using working_entry[OF assms] by auto
  have "card {i \<in> the (map_of corpus j). j \<in> set (takeWhile (\<lambda>q. q \<noteq> i) (map fst corpus))} \<le> card (the (map_of corpus j))"
    using f by (intro card_mono) auto
  moreover have "0 < card (the (map_of corpus j))"
    using f ne by (simp add: card_gt_0_iff)
  ultimately show ?thesis
    by (simp add: forward_share_def)
qed

lemma decay_step:
  assumes w: "working_graph corpus" and a: "\<bar>d\<bar> < 1"
  shows "pending corpus d n x (Suc k) \<le> \<bar>d\<bar> * pending corpus d n x k"
    and "(1 - \<bar>d\<bar>) * (\<Sum>j\<in>set (map fst corpus). step_change corpus d n x (Suc k) j) \<le> \<bar>d\<bar> * pending corpus d n x k"
proof -
  define K where "K = set (map fst corpus)"
  define P where "P = in_place_pass corpus d n (map fst corpus)"
  define x0 where "x0 = (P ^^ k) x"
  define y where "y = P x0"
  define z where "z = P y"
  define D1 where "D1 = step_change corpus d n x k"
  define D2 where "D2 = step_change corpus d n x (Suc k)"
  have D1: "D1 j = \<bar>the (x0 j) - the (y j)\<bar>" for j
    by (simp add: D1_def step_change_def x0_def y_def P_def)
  have D2: "D2 j = \<bar>the (y j) - the (z j)\<bar>" for j
    by (simp add: D2_def step_change_def x0_def y_def z_def P_def)
  have fin: "finite K" by (simp add: K_def)
  have out: "\<forall>j\<in>K. the (map_of corpus j) \<subseteq> K \<and> the (map_of corpus j) \<noteq> {}"
    using working_entry[OF w] by (auto simp: K_def)
  have step: "\<forall>i\<in>K. D2 i \<le> \<bar>d\<bar> * (\<Sum>j\<in>{j\<in>K. i \<in> the (map_of corpus j)}.
       (if j \<in> set (takeWhile (\<lambda>q. q \<noteq> i) (map fst corpus)) then D2 j else D1 j) / real (card (the (map_of corpus j))))"
    unfolding D1 D2 K_def
    using pass_step_bound[OF w, of y d n x0 z] by (simp add: y_def z_def P_def)
  have l: "\<forall>j\<in>K. 0 \<le> forward_share corpus j \<and> forward_share corpus j \<le> 1"
    using forward_share_range[OF w] by (simp add: K_def)
  have D: "\<forall>j\<in>K. 0 \<le> D1 j \<and> 0 \<le> D2 j"
    by (simp add: D1 D2)
  have s: "(\<Sum>j\<in>K. D2 j) \<le> \<bar>d\<bar> * (\<Sum>j\<in>K. forward_share corpus j * D2 j + (1 - forward_share corpus j) * D1 j)"
    using weighted_step[OF fin out step] by (simp add: forward_share_def)
  have a0: "0 \<le> \<bar>d\<bar>" by simp
  from weighted_contraction[OF fin a0 a l D s]
  show "pending corpus d n x (Suc k) \<le> \<bar>d\<bar> * pending corpus d n x k"
    and "(1 - \<bar>d\<bar>) * (\<Sum>j\<in>set (map fst corpus). step_change corpus d n x (Suc k) j) \<le> \<bar>d\<bar> * pending corpus d n x k"
    by (simp_all add: pending_def K_def D1_def D2_def)
qed

lemma pending_nonneg:
  assumes "working_graph corpus"
  shows "0 \<le> pending corpus d n x k"
  unfolding pending_def
  using forward_share_range[OF assms] by (intro sum_nonneg mult_nonneg_nonneg) (auto simp: step_change_def)

lemma pending_power:
  assumes w: "working_graph corpus" and a: "\<bar>d\<bar> < 1"
  shows "pending corpus d n x k \<le> \<bar>d\<bar> ^ k * pending corpus d n x 0"
proof (induction k)
  case 0
  then show ?case by simp
next
  case (Suc k)
  have "pending corpus d n x (Suc k) \<le> \<bar>d\<bar> * pending corpus d n x k"
    using w a by (rule decay_step)
  also have "\<dots> \<le> \<bar>d\<bar> * (\<bar>d\<bar> ^ k * pending corpus d n x 0)"
    using Suc.IH by (intro mult_left_mono) auto
  finally show ?case by (simp add: mult.assoc)
qed

lemma small_change:
  assumes w: "working_graph corpus" and a: "\<bar>d\<bar> < 1"
  shows "\<exists>k. \<forall>j\<in>set (map fst corpus). step_change corpus d n x k j < 1 / 1000"
proof -
  define B0 where "B0 = pending corpus d n x 0"
  have B0: "0 \<le> B0" unfolding B0_def using w by (rule pending_nonneg)
  have "0 < (1 / 1000) * (1 - \<bar>d\<bar>) / (B0 + 1)"
    using a B0 by simp
  from real_arch_pow_inv[OF this a] obtain m where m: "\<bar>d\<bar> ^ m < (1 / 1000) * (1 - \<bar>d\<bar>) / (B0 + 1)"
    by blast
  then have m1: "\<bar>d\<bar> ^ m * (B0 + 1) < (1 / 1000) * (1 - \<bar>d\<bar>)"
    using B0 by (simp add: field_simps)
  have "(1 - \<bar>d\<bar>) * (\<Sum>j\<in>set (map fst corpus). step_change corpus d n x (Suc m) j) \<le> \<bar>d\<bar> * pending corpus d n x m"
    using w a by (rule decay_step)
  also have "\<dots> \<le> 1 * pending corpus d n x m"
    using a pending_nonneg[OF w] by (intro mult_right_mono) auto
  also have "\<dots> \<le> \<bar>d\<bar> ^ m * B0"
    using pending_power[OF w a] by (simp add: B0_def)
  also have "\<dots> \<le> \<bar>d\<bar> ^ m * (B0 + 1)"
    by (intro mult_left_mono) auto
  also have "\<dots> < (1 / 1000) * (1 - \<bar>d\<bar>)"
    by (rule m1)
  finally have "(\<Sum>j\<in>set (map fst corpus). step_change corpus d n x (Suc m) j) < 1 / 1000"
    using a by simp
  moreover have "step_change corpus d n x (Suc m) j \<le> (\<Sum>j\<in>set (map fst corpus). step_change corpus d n x (Suc m) j)"
    if "j \<in> set (map fst corpus)" for j
    using that by (intro member_le_sum) (auto simp: step_change_def)
  ultimately show ?thesis
    by (intro exI[of _ "Suc m"]) fastforce
qed

section \<open>Termination of the convergence loop\<close>

lemma step_change_shift:
  "step_change corpus d n (in_place_pass corpus d n (map fst corpus) x) k j = step_change corpus d n x (Suc k) j"
  by (simp add: step_change_def funpow_swap1)

lemma while_change_stops:
  assumes w: "working_graph corpus" and n: "n \<noteq> 0"
  shows "dom x = set (map fst corpus) \<Longrightarrow>
         \<forall>j\<in>set (map fst corpus). step_change corpus d n x m j < 1 / 1000 \<Longrightarrow>
         \<exists>pr'. while_change corpus (reverse_links corpus Map.empty) d n True x = Some (Inr pr')"
proof (induction m arbitrary: x)
  case 0
  have dk: "distinct (map fst corpus)" using w by (simp add: working_graph_def)
  have "\<not> (\<exists>i\<in>set (map fst corpus). \<bar>the (x i) - the (in_place_pass corpus d n (map fst corpus) x i)\<bar> \<ge> 1 / 1000)"
    using 0(2) by (fastforce simp: step_change_def)
  then have "one_pass corpus (reverse_links corpus Map.empty) d n (map fst corpus) (x, False) =
             Inr (in_place_pass corpus d n (map fst corpus) x, False)"
    using one_pass_pure[OF w n 0(1) subset_refl dk, of d False] by simp
  then show ?case
    by (simp add: while_change_True while_change_False)
next
  case (Suc m)
  define y where "y = in_place_pass corpus d n (map fst corpus) x"
  have dk: "distinct (map fst corpus)" using w by (simp add: working_graph_def)
  obtain c where p: "one_pass corpus (reverse_links corpus Map.empty) d n (map fst corpus) (x, False) = Inr (y, c)"
    using one_pass_pure[OF w n Suc.prems(1) subset_refl dk, of d False] by (simp add: y_def)
  show ?case
  proof (cases c)
    case False
    with p show ?thesis by (simp add: while_change_True while_change_False)
  next
    case True
    have dy: "dom y = set (map fst corpus)"
      using Suc.prems(1) by (simp add: y_def in_place_pass_dom)
    have "\<forall>j\<in>set (map fst corpus). step_change corpus d n y m j < 1 / 1000"
      using Suc.prems(2) by (simp add: y_def step_change_shift)
    from Suc.IH[OF dy this] p True show ?thesis
      by (simp add: while_change_True)
  qed
qed

lemma initial_ranks_ok:
  "n \<noteq> 0 \<Longrightarrow> \<exists>pr'. initial_ranks n ks pr = Inr pr'"
  by (induction ks arbitrary: pr) (auto simp: py_div_def)

lemma iterate_pagerank_returns:
  assumes v: "valid_graph corpus" and a: "\<bar>d\<bar> < 1"
  shows "\<exists>corpus' pr. iterate_pagerank corpus d = Some (corpus', Inr pr)"
proof (cases "corpus = []")
  case True
  then show ?thesis
    by (simp add: iterate_pagerank_def fill_dangling_def while_change_True while_change_False)
next
  case False
  define W where "W = fill_dangling corpus"
  have w: "working_graph W" unfolding W_def using v by (rule fill_dangling_working)
  have n: "length corpus \<noteq> 0" using False by simp
  obtain pr0 where pr0: "initial_ranks (length corpus) (map fst W) Map.empty = Inr pr0"
    using initial_ranks_ok[OF n] by blast
  have d0: "dom pr0 = set (map fst W)"
    using initial_ranks_dom[OF pr0] by simp
  obtain k where "\<forall>j\<in>set (map fst W). step_change W d (length corpus) pr0 k j < 1 / 1000"
    using small_change[OF w a] by blast
  from while_change_stops[OF w n d0 this] obtain pr where
    "while_change W (reverse_links W Map.empty) d (length corpus) True pr0 = Some (Inr pr)"
    by blast
  with pr0 show ?thesis
    by (simp add: iterate_pagerank_def W_def Let_def)
qed

text \<open>
  Claim C9. For every finite graph that satisfies the input invariants, cyclic or not,
  and every damping factor \<open>d\<close> with \<open>0 \<le> d < 1\<close> (a damping factor is a probability),
  the convergence loop of \<open>iterate_pagerank\<close> is left after finitely many passes: the
  call returns a mapping and raises no exception.
\<close>

theorem iterate_pagerank_terminates:
  assumes "valid_graph corpus" and "0 \<le> d" and "d < 1"
  shows "\<exists>corpus' pr. iterate_pagerank corpus d = Some (corpus', Inr pr)"
proof -
  from assms(2,3) have "\<bar>d\<bar> < 1"
    by simp
  with assms(1) show ?thesis
    by (rule iterate_pagerank_returns)
qed

theorem iterate_pagerank_terminates_witness:
  "valid_graph corpus_three \<and> (0 :: real) \<le> 17 / 20 \<and> (17 / 20 :: real) < 1 \<and>
   (\<exists>corpus' pr. iterate_pagerank corpus_three (17 / 20) = Some (corpus', Inr pr))"
proof -
  have v: "valid_graph corpus_three"
    by (simp add: corpus_three_def valid_graph_def)
  have lo: "(0 :: real) \<le> 17 / 20" and hi: "(17 / 20 :: real) < 1"
    by simp_all
  from iterate_pagerank_terminates [OF v lo hi] v show ?thesis
    by simp
qed

section \<open>The keys of the returned ranks\<close>





end
